theory Spec2Isabelle
  imports Complex_Main
begin

section \<open>Conway's Game of Life: the grid engine of \<^verbatim>\<open>game-of-life.py\<close>\<close>

text \<open>
  The class \<^verbatim>\<open>GameOfLife\<close> keeps its cells in a numpy array that it hands out by
  reference (\<^verbatim>\<open>get_grid\<close>) and that \<^verbatim>\<open>populate_grid\<close> changes in place, while
  \<^verbatim>\<open>make_step\<close> and \<^verbatim>\<open>randomize\<close> bind a new array. Arrays therefore live in a
  store and the object holds an address. A raised exception is a value; a method that
  raises returns the exception together with the object as it is at that moment.
  The plotting attributes (\<^verbatim>\<open>fig\<close>, \<^verbatim>\<open>ax\<close>, \<^verbatim>\<open>im\<close>) and methods are left out.
\<close>

subsection \<open>Python and numpy primitives\<close>

datatype error = ValueError | IndexError | KeyError | OverflowError

text \<open>
  A two-dimensional integer array: the list of its rows. numpy's entries are 64-bit:
  a write of a value outside \<open>[-2^63, 2^63)\<close> raises \<^verbatim>\<open>OverflowError\<close> and stores
  nothing. Sums of entries are unbounded integers here; every statement below that
  adds entries up is about arrays of entries 0 and 1, where a sum of neighbours is at
  most 8.
\<close>

type_synonym ndarray = "int list list"

type_synonym addr = nat

text \<open>
  \<^verbatim>\<open>np.zeros(shape=(m, n), dtype=int)\<close>; numpy refuses a negative dimension. numpy
  also refuses a dimension of \<open>2^63\<close> or more and an array of \<open>2^63\<close> bytes or more, and
  an allocation can run out of memory; the model has no upper limit. The statement
  about which constructions succeed (claim C5) is therefore made for dimensions
  within numpy's limit only.
\<close>

definition np_zeros :: "int \<Rightarrow> int \<Rightarrow> error + ndarray" where
  "np_zeros m n =
     (if m < 0 \<or> n < 0 then Inl ValueError
      else Inr (replicate (nat m) (replicate (nat n) 0)))"

text \<open>An index into an axis of length \<open>n\<close>: a negative index counts from the end.\<close>

definition axis_index :: "int \<Rightarrow> nat \<Rightarrow> error + nat" where
  "axis_index i n =
     (let j = (if i < 0 then int n + i else i)
      in if 0 \<le> j \<and> j < int n then Inr (nat j) else Inl IndexError)"

text \<open>\<^verbatim>\<open>g[r][c]\<close>\<close>

definition getitem2 :: "ndarray \<Rightarrow> int \<Rightarrow> int \<Rightarrow> error + int" where
  "getitem2 g r c =
     (case axis_index r (length g) of
        Inl e \<Rightarrow> Inl e
      | Inr i \<Rightarrow>
          (case axis_index c (length (g ! i)) of
             Inl e \<Rightarrow> Inl e
           | Inr j \<Rightarrow> Inr (g ! i ! j)))"

text \<open>The values an entry can hold.\<close>

definition int64_range :: "int \<Rightarrow> bool" where
  "int64_range v \<longleftrightarrow> - (2 ^ 63) \<le> v \<and> v < 2 ^ 63"

text \<open>
  \<^verbatim>\<open>g[r][c] = v\<close>: \<^verbatim>\<open>g[r]\<close> is a view of row \<open>r\<close>, so the write lands in \<open>g\<close>. The
  indices are resolved first, then the value is converted to an entry.
\<close>

definition setitem2 :: "ndarray \<Rightarrow> int \<Rightarrow> int \<Rightarrow> int \<Rightarrow> error + ndarray" where
  "setitem2 g r c v =
     (case axis_index r (length g) of
        Inl e \<Rightarrow> Inl e
      | Inr i \<Rightarrow>
          (case axis_index c (length (g ! i)) of
             Inl e \<Rightarrow> Inl e
           | Inr j \<Rightarrow>
               if int64_range v then Inr (g[i := (g ! i)[j := v]])
               else Inl OverflowError))"

text \<open>\<^verbatim>\<open>range(n)\<close> and \<^verbatim>\<open>range(a, b)\<close>\<close>

definition range1 :: "int \<Rightarrow> int list" where
  "range1 n = [0..n - 1]"

definition range2 :: "int \<Rightarrow> int \<Rightarrow> int list" where
  "range2 a b = [a..b - 1]"

text \<open>
  A \<^verbatim>\<open>for\<close> loop over a list: the body takes the loop variable and the variables the
  loop changes; an exception in the body ends the loop.
\<close>

fun for_loop :: "'i list \<Rightarrow> ('i \<Rightarrow> 's \<Rightarrow> 'e + 's) \<Rightarrow> 's \<Rightarrow> 'e + 's" where
  "for_loop [] body s = Inr s"
| "for_loop (i # is) body s =
     (case body i s of Inl e \<Rightarrow> Inl e | Inr s' \<Rightarrow> for_loop is body s')"

text \<open>
  \<^verbatim>\<open>np.random.choice([0, 1], size=(m, n), p=[p0, p1])\<close>. numpy checks \<open>p\<close> first: no
  entry may be negative and the entries must sum to 1 (within \<open>sqrt eps = 2^-26\<close>).
  The generator's uniform draw for each position is the parameter \<open>draw\<close>; the entry
  is found by inverting the cumulative distribution. Probabilities are reals here.
\<close>

definition np_random_choice ::
  "(nat \<Rightarrow> nat \<Rightarrow> real) \<Rightarrow> int \<Rightarrow> int \<Rightarrow> real \<Rightarrow> real \<Rightarrow> error + ndarray" where
  "np_random_choice draw m n p0 p1 =
     (if p0 < 0 \<or> p1 < 0 then Inl ValueError
      else if \<bar>p0 + p1 - 1\<bar> > 1 / 2 ^ 26 then Inl ValueError
      else if m < 0 \<or> n < 0 then Inl ValueError
      else Inr (map (\<lambda>i. map (\<lambda>j. if draw i j < p0 / (p0 + p1) then 0 else 1)
                                [0..<nat n])
                    [0..<nat m]))"

subsection \<open>The object\<close>

record GameOfLife =
  store :: "ndarray list"
  rows :: int
  cols :: int
  life_grid :: addr
  current_step :: int

text \<open>The array the object's \<^verbatim>\<open>life_grid\<close> refers to, and one cell of it.\<close>

definition cells :: "GameOfLife \<Rightarrow> ndarray" where
  "cells self = store self ! life_grid self"

definition cell :: "GameOfLife \<Rightarrow> int \<Rightarrow> int \<Rightarrow> int" where
  "cell self r c = cells self ! nat r ! nat c"

text \<open>\<^verbatim>\<open>__init__\<close>: the store of a new object holds the one array it allocates.\<close>

definition GameOfLife_init :: "int \<Rightarrow> int \<Rightarrow> error + GameOfLife" where
  "GameOfLife_init m n =
     (case np_zeros m n of
        Inl e \<Rightarrow> Inl e
      | Inr z \<Rightarrow>
          Inr \<lparr>store = [z], rows = m, cols = n, life_grid = 0, current_step = 0\<rparr>)"

text \<open>\<^verbatim>\<open>randomize\<close>: the exception of \<^verbatim>\<open>np.random.choice\<close> comes before both assignments.\<close>

definition randomize ::
  "real \<Rightarrow> (nat \<Rightarrow> nat \<Rightarrow> real) \<Rightarrow> GameOfLife \<Rightarrow> error \<times> GameOfLife + GameOfLife" where
  "randomize density draw self =
     (case np_random_choice draw (rows self) (cols self) (1 - density) density of
        Inl e \<Rightarrow> Inl (e, self)
      | Inr a \<Rightarrow>
          Inr (self\<lparr>store := store self @ [a], life_grid := length (store self),
                    current_step := 0\<rparr>))"

text \<open>\<^verbatim>\<open>get_grid\<close> returns the reference itself.\<close>

definition get_grid :: "GameOfLife \<Rightarrow> addr" where
  "get_grid self = life_grid self"

text \<open>\<^verbatim>\<open>populate_grid\<close>: writes into the array in place.\<close>

definition populate_body :: "int \<times> int \<Rightarrow> GameOfLife \<Rightarrow> error \<times> GameOfLife + GameOfLife" where
  "populate_body rc self =
     (case rc of (r, c) \<Rightarrow>
        if 0 \<le> r \<and> r < rows self \<and> 0 \<le> c \<and> c < cols self
        then (case setitem2 (store self ! life_grid self) r c 1 of
                Inl e \<Rightarrow> Inl (e, self)
              | Inr a \<Rightarrow> Inr (self\<lparr>store := (store self)[life_grid self := a]\<rparr>))
        else Inr self)"

definition populate_grid ::
  "(int \<times> int) list \<Rightarrow> GameOfLife \<Rightarrow> error \<times> GameOfLife + GameOfLife" where
  "populate_grid coords self =
     (case for_loop coords populate_body self of
        Inl x \<Rightarrow> Inl x
      | Inr self' \<Rightarrow> Inr (self'\<lparr>current_step := 0\<rparr>))"

text \<open>
  \<^verbatim>\<open>make_step\<close>, first part: the two inner loops over the offsets add up the entries
  of the neighbours inside the grid.
\<close>

definition sum_neighbors :: "ndarray \<Rightarrow> int \<Rightarrow> int \<Rightarrow> int \<Rightarrow> int \<Rightarrow> error + int" where
  "sum_neighbors g rws cls rc cc =
     for_loop [-1, 0, 1]
       (\<lambda>r acc. for_loop [-1, 0, 1]
          (\<lambda>c acc.
             if r = 0 \<and> c = 0 then Inr acc
             else let rn = rc + r; cn = cc + c
                  in if 0 \<le> rn \<and> rn < rws \<and> 0 \<le> cn \<and> cn < cls
                     then (case getitem2 g rn cn of
                             Inl e \<Rightarrow> Inl e
                           | Inr v \<Rightarrow> Inr (acc + v))
                     else Inr acc)
          acc)
       0"

text \<open>The dictionary \<^verbatim>\<open>neighbors\<close>, filled row by row.\<close>

definition count_neighbors ::
  "ndarray \<Rightarrow> int \<Rightarrow> int \<Rightarrow> error + (int \<times> int \<rightharpoonup> int)" where
  "count_neighbors g rws cls =
     for_loop (range1 rws)
       (\<lambda>rc nb. for_loop (range1 cls)
          (\<lambda>cc nb.
             case sum_neighbors g rws cls rc cc of
               Inl e \<Rightarrow> Inl e
             | Inr n \<Rightarrow> Inr (nb((rc, cc) \<mapsto> n)))
          nb)
       Map.empty"

text \<open>\<^verbatim>\<open>neighbors[(rc, cc)]\<close>\<close>

definition dict_get :: "('k \<rightharpoonup> 'v) \<Rightarrow> 'k \<Rightarrow> error + 'v" where
  "dict_get d k = (case d k of None \<Rightarrow> Inl KeyError | Some v \<Rightarrow> Inr v)"

text \<open>
  Second part: the rules, cell by cell, written into \<^verbatim>\<open>new_grid\<close>. The conditions are
  evaluated left to right as Python does: the dictionary is read only when the
  comparison before \<^verbatim>\<open>and\<close> holds.
\<close>

definition rule_body ::
  "ndarray \<Rightarrow> (int \<times> int \<rightharpoonup> int) \<Rightarrow> int \<Rightarrow> int \<Rightarrow> ndarray \<Rightarrow> error + ndarray" where
  "rule_body g neighbors rc cc new_grid =
     (case getitem2 g rc cc of
        Inl e \<Rightarrow> Inl e
      | Inr v \<Rightarrow>
          if v = 1 then
            (case dict_get neighbors (rc, cc) of
               Inl e \<Rightarrow> Inl e
             | Inr n \<Rightarrow>
                 if n = 2 \<or> n = 3 then setitem2 new_grid rc cc 1
                 else setitem2 new_grid rc cc 0)
          else if v = 0 then
            (case dict_get neighbors (rc, cc) of
               Inl e \<Rightarrow> Inl e
             | Inr n \<Rightarrow>
                 if n = 3 then setitem2 new_grid rc cc 1
                 else setitem2 new_grid rc cc 0)
          else setitem2 new_grid rc cc 0)"

definition apply_rules ::
  "ndarray \<Rightarrow> (int \<times> int \<rightharpoonup> int) \<Rightarrow> int \<Rightarrow> int \<Rightarrow> ndarray \<Rightarrow> error + ndarray" where
  "apply_rules g neighbors rws cls new_grid =
     for_loop (range1 rws)
       (\<lambda>rc ng. for_loop (range1 cls) (\<lambda>cc ng. rule_body g neighbors rc cc ng) ng)
       new_grid"

text \<open>
  \<^verbatim>\<open>make_step\<close>: the counter is increased before the loops; the new array is bound
  to \<^verbatim>\<open>life_grid\<close> at the end, and the old one stays in the store as it was.
\<close>

definition make_step :: "GameOfLife \<Rightarrow> error \<times> GameOfLife + GameOfLife" where
  "make_step self =
     (let g = store self ! life_grid self;
          cls = cols self;
          rws = rows self;
          self1 = self\<lparr>current_step := current_step self + 1\<rparr>
      in case count_neighbors g rws cls of
           Inl e \<Rightarrow> Inl (e, self1)
         | Inr neighbors \<Rightarrow>
             (case np_zeros rws cls of
                Inl e \<Rightarrow> Inl (e, self1)
              | Inr z \<Rightarrow>
                  (case apply_rules g neighbors rws cls z of
                     Inl e \<Rightarrow> Inl (e, self1)
                   | Inr new_grid \<Rightarrow>
                       Inr (self1\<lparr>store := store self @ [new_grid],
                                  life_grid := length (store self)\<rparr>))))"

text \<open>\<^verbatim>\<open>make_n_steps\<close>: \<^verbatim>\<open>for i in range(1, n + 1): self.make_step()\<close>\<close>

definition make_n_steps :: "int \<Rightarrow> GameOfLife \<Rightarrow> error \<times> GameOfLife + GameOfLife" where
  "make_n_steps n self = for_loop (range2 1 (n + 1)) (\<lambda>i s. make_step s) self"

subsection \<open>The grid invariant and the rules as the specification words them\<close>

text \<open>An array of \<open>R\<close> rows of \<open>C\<close> entries each; entries that are 0 or 1.\<close>

definition rect :: "int \<Rightarrow> int \<Rightarrow> ndarray \<Rightarrow> bool" where
  "rect R C g \<longleftrightarrow> int (length g) = R \<and> (\<forall>row \<in> set g. int (length row) = C)"

definition binary :: "ndarray \<Rightarrow> bool" where
  "binary g \<longleftrightarrow> (\<forall>row \<in> set g. \<forall>v \<in> set row. v = 0 \<or> v = 1)"

definition shape_ok :: "GameOfLife \<Rightarrow> bool" where
  "shape_ok self \<longleftrightarrow>
     life_grid self < length (store self) \<and> 0 \<le> cols self \<and>
     rect (rows self) (cols self) (cells self)"

definition invariant :: "GameOfLife \<Rightarrow> bool" where
  "invariant self \<longleftrightarrow> shape_ok self \<and> binary (cells self)"

text \<open>Positions inside \<open>[0, R) \<times> [0, C)\<close>, and the eight positions around \<open>(r, c)\<close>.\<close>

definition in_grid :: "int \<Rightarrow> int \<Rightarrow> int \<times> int \<Rightarrow> bool" where
  "in_grid R C p \<longleftrightarrow> 0 \<le> fst p \<and> fst p < R \<and> 0 \<le> snd p \<and> snd p < C"

text \<open>The entry at a position inside the grid; a position outside contributes nothing.\<close>

definition entry_or_zero :: "ndarray \<Rightarrow> int \<Rightarrow> int \<Rightarrow> int \<times> int \<Rightarrow> int" where
  "entry_or_zero g R C p = (if in_grid R C p then g ! nat (fst p) ! nat (snd p) else 0)"

definition surrounding :: "int \<Rightarrow> int \<Rightarrow> (int \<times> int) list" where
  "surrounding r c =
     [(r - 1, c - 1), (r - 1, c), (r - 1, c + 1),
      (r, c - 1), (r, c + 1),
      (r + 1, c - 1), (r + 1, c), (r + 1, c + 1)]"

definition neighbor_positions :: "int \<Rightarrow> int \<Rightarrow> int \<Rightarrow> int \<Rightarrow> (int \<times> int) list" where
  "neighbor_positions R C r c = filter (in_grid R C) (surrounding r c)"

definition alive_at :: "ndarray \<Rightarrow> int \<times> int \<Rightarrow> bool" where
  "alive_at g p \<longleftrightarrow> g ! nat (fst p) ! nat (snd p) = 1"

definition alive_neighbors :: "ndarray \<Rightarrow> int \<Rightarrow> int \<Rightarrow> int \<Rightarrow> int \<Rightarrow> nat" where
  "alive_neighbors g R C r c = length (filter (alive_at g) (neighbor_positions R C r c))"

definition next_state :: "int \<Rightarrow> nat \<Rightarrow> int" where
  "next_state v n = (if v = 1 \<and> (n = 2 \<or> n = 3) \<or> v = 0 \<and> n = 3 then 1 else 0)"

text \<open>The next generation, every cell computed from the grid \<open>g\<close> before the step.\<close>

definition next_grid :: "ndarray \<Rightarrow> int \<Rightarrow> int \<Rightarrow> ndarray" where
  "next_grid g R C =
     map (\<lambda>i. map (\<lambda>j. next_state (g ! i ! j) (alive_neighbors g R C (int i) (int j)))
                   [0..<nat C])
         [0..<nat R]"

text \<open>Calling \<^verbatim>\<open>make_step\<close> \<open>k\<close> times, one call after the other.\<close>

fun step_times :: "nat \<Rightarrow> GameOfLife \<Rightarrow> error \<times> GameOfLife + GameOfLife" where
  "step_times 0 self = Inr self"
| "step_times (Suc k) self =
     (case make_step self of Inl x \<Rightarrow> Inl x | Inr self' \<Rightarrow> step_times k self')"

text \<open>
  The array after seeding, as the specification words it: a cell named in the
  coordinate list is alive, every other cell is as before.
\<close>

definition populated :: "(int \<times> int) list \<Rightarrow> ndarray \<Rightarrow> ndarray" where
  "populated coords g =
     map (\<lambda>i. map (\<lambda>j. if (int i, int j) \<in> set coords then 1 else g ! i ! j)
                   [0..<length (g ! i)])
         [0..<length g]"

text \<open>
  Code outside the object that holds a reference \<open>a\<close> to an array and writes to it:
  \<^verbatim>\<open>a[r][c] = v\<close>.
\<close>

definition caller_setitem ::
  "addr \<Rightarrow> int \<Rightarrow> int \<Rightarrow> int \<Rightarrow> GameOfLife \<Rightarrow> error \<times> GameOfLife + GameOfLife" where
  "caller_setitem a r c v self =
     (case setitem2 (store self ! a) r c v of
        Inl e \<Rightarrow> Inl (e, self)
      | Inr g \<Rightarrow> Inr (self\<lparr>store := (store self)[a := g]\<rparr>))"

subsection \<open>Concrete grids\<close>

text \<open>A 3 by 3 grid with the vertical blinker.\<close>

definition blinker :: GameOfLife where
  "blinker = \<lparr>store = [[[0, 1, 0], [0, 1, 0], [0, 1, 0]]], rows = 3, cols = 3,
              life_grid = 0, current_step = 0\<rparr>"

text \<open>The empty 3 by 3 grid, as \<^verbatim>\<open>GameOfLife(3, 3)\<close> builds it.\<close>

definition empty3 :: GameOfLife where
  "empty3 = \<lparr>store = [[[0, 0, 0], [0, 0, 0], [0, 0, 0]]], rows = 3, cols = 3,
             life_grid = 0, current_step = 0\<rparr>"

text \<open>The glider of the specification, and the grid that has exactly the cells of a list alive.\<close>

definition glider :: "(int \<times> int) list" where
  "glider = [(1, 0), (2, 1), (0, 2), (1, 2), (2, 2)]"

definition pattern :: "int \<Rightarrow> int \<Rightarrow> (int \<times> int) list \<Rightarrow> ndarray" where
  "pattern R C A =
     map (\<lambda>i. map (\<lambda>j. if (int i, int j) \<in> set A then 1 else 0) [0..<nat C]) [0..<nat R]"

text \<open>The cells of a list among the eight positions around \<open>(r, c)\<close>.\<close>

definition around :: "(int \<times> int) list \<Rightarrow> int \<Rightarrow> int \<Rightarrow> nat" where
  "around A r c = length (filter (\<lambda>p. p \<in> set A) (surrounding r c))"

subsection \<open>Arrays, indexing and loops\<close>

lemma axis_index_ok: "0 \<le> i \<Longrightarrow> i < int n \<Longrightarrow> axis_index i n = Inr (nat i)"
  by (simp add: axis_index_def)

lemma rect_nth: "rect R C g \<Longrightarrow> 0 \<le> r \<Longrightarrow> r < R \<Longrightarrow> int (length (g ! nat r)) = C"
  by (auto simp: rect_def)

lemma getitem2_ok:
  "rect R C g \<Longrightarrow> 0 \<le> r \<Longrightarrow> r < R \<Longrightarrow> 0 \<le> c \<Longrightarrow> c < C \<Longrightarrow>
   getitem2 g r c = Inr (g ! nat r ! nat c)"
  by (auto simp: getitem2_def axis_index_ok rect_def)

lemma int64_range_0_1: "int64_range 0" "int64_range 1"
  by (simp_all add: int64_range_def)

lemma setitem2_ok:
  "rect R C g \<Longrightarrow> 0 \<le> r \<Longrightarrow> r < R \<Longrightarrow> 0 \<le> c \<Longrightarrow> c < C \<Longrightarrow> int64_range v \<Longrightarrow>
   setitem2 g r c v = Inr (g[nat r := (g ! nat r)[nat c := v]])"
  by (auto simp: setitem2_def axis_index_ok rect_def)

lemma setitem2_overflow:
  "rect R C g \<Longrightarrow> 0 \<le> r \<Longrightarrow> r < R \<Longrightarrow> 0 \<le> c \<Longrightarrow> c < C \<Longrightarrow> \<not> int64_range v \<Longrightarrow>
   setitem2 g r c v = Inl OverflowError"
  by (auto simp: setitem2_def axis_index_ok rect_def)

lemma rect_update:
  assumes "rect R C g"
  shows "rect R C (g[i := (g ! i)[j := v]])"
proof (cases "i < length g")
  case True
  have "row \<in> set (g[i := (g ! i)[j := v]]) \<Longrightarrow> int (length row) = C" for row
  proof -
    assume "row \<in> set (g[i := (g ! i)[j := v]])"
    then have "row = (g ! i)[j := v] \<or> row \<in> set g"
      using set_update_subset_insert[of g i "(g ! i)[j := v]"] by auto
    moreover have "g ! i \<in> set g" using True by simp
    ultimately show ?thesis using assms by (auto simp: rect_def)
  qed
  then show ?thesis using assms by (simp add: rect_def)
next
  case False
  then show ?thesis using assms by (simp add: list_update_beyond)
qed

lemma for_loop_rule_aux:
  "P pre s \<Longrightarrow>
   (\<And>pre i s. P pre s \<Longrightarrow> i \<in> set xs \<Longrightarrow> \<exists>s'. body i s = Inr s' \<and> P (pre @ [i]) s') \<Longrightarrow>
   \<exists>s'. for_loop xs body s = Inr s' \<and> P (pre @ xs) s'"
proof (induction xs arbitrary: pre s)
  case Nil
  then show ?case by simp
next
  case (Cons x xs)
  from Cons.prems obtain s1 where s1: "body x s = Inr s1" "P (pre @ [x]) s1"
    by (meson list.set_intros(1))
  have "\<exists>s'. for_loop xs body s1 = Inr s' \<and> P ((pre @ [x]) @ xs) s'"
    by (rule Cons.IH[OF s1(2)]) (use Cons.prems(2) in auto)
  with s1 show ?case by simp
qed

lemma for_loop_rule:
  "P [] s \<Longrightarrow>
   (\<And>pre i s. P pre s \<Longrightarrow> i \<in> set xs \<Longrightarrow> \<exists>s'. body i s = Inr s' \<and> P (pre @ [i]) s') \<Longrightarrow>
   \<exists>s'. for_loop xs body s = Inr s' \<and> P xs s'"
  using for_loop_rule_aux[of P "[]" s xs body] by simp

lemma sum_neighbors_ok:
  assumes "rect R C g"
  shows "sum_neighbors g R C rc cc =
         Inr (sum_list (map (entry_or_zero g R C) (surrounding rc cc)))"
proof -
  have body: "(if r = 0 \<and> c = 0 then Inr acc
               else let rn = rc + r; cn = cc + c
                    in if 0 \<le> rn \<and> rn < R \<and> 0 \<le> cn \<and> cn < C
                       then (case getitem2 g rn cn of
                               Inl e \<Rightarrow> Inl e
                             | Inr v \<Rightarrow> Inr (acc + v))
                       else Inr acc)
              = (Inr (acc + (if r = 0 \<and> c = 0 then 0
                             else entry_or_zero g R C (rc + r, cc + c))) :: error + int)"
    for r c acc
    by (simp add: Let_def entry_or_zero_def in_grid_def getitem2_ok[OF assms])
  show ?thesis
    unfolding sum_neighbors_def body
    by (simp add: surrounding_def)
qed

lemma rect_entry:
  assumes "rect R C g" "in_grid R C p"
  shows "nat (fst p) < length g" "nat (snd p) < length (g ! nat (fst p))"
proof -
  show a: "nat (fst p) < length g"
    using assms by (auto simp: rect_def in_grid_def)
  then have "g ! nat (fst p) \<in> set g" by simp
  then have "int (length (g ! nat (fst p))) = C" using assms(1) by (simp add: rect_def)
  then show "nat (snd p) < length (g ! nat (fst p))"
    using assms(2) by (auto simp: in_grid_def)
qed

lemma binary_entry:
  assumes "rect R C g" "binary g" "in_grid R C p"
  shows "g ! nat (fst p) ! nat (snd p) = 0 \<or> g ! nat (fst p) ! nat (snd p) = 1"
proof -
  have "g ! nat (fst p) \<in> set g"
    using rect_entry(1)[OF assms(1,3)] by simp
  moreover have "g ! nat (fst p) ! nat (snd p) \<in> set (g ! nat (fst p))"
    using rect_entry(2)[OF assms(1,3)] by simp
  ultimately show ?thesis using assms(2) by (auto simp: binary_def)
qed

lemma entry_or_zero_alive:
  assumes "rect R C g" "binary g"
  shows "entry_or_zero g R C p = (if in_grid R C p \<and> alive_at g p then 1 else 0)"
  using binary_entry[OF assms, of p] by (auto simp: entry_or_zero_def alive_at_def)

lemma entry_sum_alive:
  assumes "rect R C g" "binary g"
  shows "sum_list (map (entry_or_zero g R C) xs) =
         int (length (filter (alive_at g) (filter (in_grid R C) xs)))"
  by (induction xs) (simp_all add: entry_or_zero_alive[OF assms])

lemma sum_neighbors_alive:
  assumes "rect R C g" "binary g"
  shows "sum_neighbors g R C rc cc = Inr (int (alive_neighbors g R C rc cc))"
  by (simp add: sum_neighbors_ok[OF assms(1)] entry_sum_alive[OF assms]
      alive_neighbors_def neighbor_positions_def)

lemma set_range1: "set (range1 n) = {0..<n}"
  by (auto simp: range1_def)

lemma count_neighbors_ok:
  assumes "rect R C g" "binary g"
  shows "\<exists>nb. count_neighbors g R C = Inr nb \<and>
              (\<forall>r c. in_grid R C (r, c) \<longrightarrow>
                     nb (r, c) = Some (int (alive_neighbors g R C r c)))"
proof -
  let ?n = "\<lambda>r c. int (alive_neighbors g R C r c)"
  let ?P = "\<lambda>done nb. \<forall>r \<in> set done. \<forall>c \<in> set (range1 C). nb (r, c) = Some (?n r c)"
  have inner: "\<exists>nb'. for_loop (range1 C)
                  (\<lambda>cc nb. case sum_neighbors g R C rc cc of
                              Inl e \<Rightarrow> Inl e
                            | Inr n \<Rightarrow> Inr (nb((rc, cc) \<mapsto> n))) nb = Inr nb' \<and>
                ?P (pre @ [rc]) nb'"
    if "?P pre nb" for pre rc and nb :: "int \<times> int \<rightharpoonup> int"
  proof -
    let ?Q = "\<lambda>dc nb. ?P pre nb \<and> (\<forall>c \<in> set dc. nb (rc, c) = Some (?n rc c))"
    have "\<exists>nb'. for_loop (range1 C)
                  (\<lambda>cc nb. case sum_neighbors g R C rc cc of
                              Inl e \<Rightarrow> Inl e
                            | Inr n \<Rightarrow> Inr (nb((rc, cc) \<mapsto> n))) nb = Inr nb' \<and>
                ?Q (range1 C) nb'"
    proof (rule for_loop_rule[where P = ?Q])
      show "?Q [] nb" using that by simp
    next
      fix dc cc and m :: "int \<times> int \<rightharpoonup> int"
      assume "?Q dc m" "cc \<in> set (range1 C)"
      then show "\<exists>s'. (case sum_neighbors g R C rc cc of
                           Inl e \<Rightarrow> Inl e
                         | Inr n \<Rightarrow> Inr (m((rc, cc) \<mapsto> n))) = Inr s' \<and> ?Q (dc @ [cc]) s'"
        by (auto simp: sum_neighbors_alive[OF assms])
    qed
    then show ?thesis by auto
  qed
  have "\<exists>nb. count_neighbors g R C = Inr nb \<and> ?P (range1 R) nb"
    unfolding count_neighbors_def
  proof (rule for_loop_rule[where P = ?P])
    show "?P [] Map.empty" by simp
  next
    fix pre rc and nb :: "int \<times> int \<rightharpoonup> int"
    assume "?P pre nb"
    from inner[OF this, of rc]
    show "\<exists>s'. for_loop (range1 C)
                  (\<lambda>cc nb. case sum_neighbors g R C rc cc of
                              Inl e \<Rightarrow> Inl e
                            | Inr n \<Rightarrow> Inr (nb((rc, cc) \<mapsto> n))) nb = Inr s' \<and>
               ?P (pre @ [rc]) s'" .
  qed
  then show ?thesis
    by (auto simp: set_range1 in_grid_def)
qed

lemma nth_update2:
  "i < length g \<Longrightarrow> j < length (g ! i) \<Longrightarrow>
   g[i := (g ! i)[j := v]] ! i' ! j' = (if i' = i \<and> j' = j then v else g ! i' ! j')"
  by (cases "i' = i") (auto simp: nth_list_update)

lemma rule_body_ok:
  assumes "rect R C g" "binary g" "rect R C ng" "in_grid R C (rc, cc)"
    and "nb (rc, cc) = Some (int n)"
  shows "rule_body g nb rc cc ng =
         Inr (ng[nat rc := (ng ! nat rc)[nat cc := next_state (g ! nat rc ! nat cc) n]])"
proof -
  from assms(4) have b: "0 \<le> rc" "rc < R" "0 \<le> cc" "cc < C"
    by (simp_all add: in_grid_def)
  have v: "g ! nat rc ! nat cc = 0 \<or> g ! nat rc ! nat cc = 1"
    using binary_entry[OF assms(1,2,4)] by simp
  show ?thesis
    using v
    by (auto simp: rule_body_def getitem2_ok[OF assms(1) b] setitem2_ok[OF assms(3) b]
        int64_range_0_1
        dict_get_def assms(5) next_state_def)
qed

lemma apply_rules_ok:
  assumes "rect R C g" "binary g" "rect R C z"
    and nb: "\<And>r c. in_grid R C (r, c) \<Longrightarrow> nb (r, c) = Some (int (n r c))"
  shows "\<exists>ng. apply_rules g nb R C z = Inr ng \<and> rect R C ng \<and>
              (\<forall>r c. in_grid R C (r, c) \<longrightarrow>
                     ng ! nat r ! nat c = next_state (g ! nat r ! nat c) (n r c))"
proof -
  let ?ok = "\<lambda>ng r c. ng ! nat r ! nat c = next_state (g ! nat r ! nat c) (n r c)"
  let ?P = "\<lambda>done ng. rect R C ng \<and>
              (\<forall>r \<in> set done. \<forall>c. in_grid R C (r, c) \<longrightarrow> ?ok ng r c)"
  have upd: "rect R C (ng[nat rc := (ng ! nat rc)[nat cc := v]]) \<and>
               (\<forall>r c. in_grid R C (r, c) \<longrightarrow>
                  ng[nat rc := (ng ! nat rc)[nat cc := v]] ! nat r ! nat c =
                  (if r = rc \<and> c = cc then v else ng ! nat r ! nat c))"
    if "rect R C ng" "in_grid R C (rc, cc)" for ng rc cc v
  proof -
    have "nat rc < length ng" "nat cc < length (ng ! nat rc)"
      using rect_entry[OF that] by simp_all
    then show ?thesis
      using that(2) by (auto simp: nth_update2 rect_update[OF that(1)] in_grid_def)
  qed
  have inner: "\<exists>ng'. for_loop (range1 C) (\<lambda>cc ng. rule_body g nb rc cc ng) ng = Inr ng' \<and>
                ?P (pre @ [rc]) ng'"
    if "?P pre ng" "rc \<in> set (range1 R)" for pre rc ng
  proof -
    let ?Q = "\<lambda>dc ng. ?P pre ng \<and> (\<forall>c \<in> set dc. in_grid R C (rc, c) \<longrightarrow> ?ok ng rc c)"
    have "\<exists>ng'. for_loop (range1 C) (\<lambda>cc ng. rule_body g nb rc cc ng) ng = Inr ng' \<and>
                ?Q (range1 C) ng'"
    proof (rule for_loop_rule[where P = ?Q])
      show "?Q [] ng" using that by simp
    next
      fix dc cc m
      assume Q: "?Q dc m" and cc: "cc \<in> set (range1 C)"
      from cc that(2) have ig: "in_grid R C (rc, cc)"
        by (simp add: set_range1 in_grid_def)
      from Q have rm: "rect R C m" by simp
      let ?m' = "m[nat rc := (m ! nat rc)[nat cc := next_state (g ! nat rc ! nat cc) (n rc cc)]]"
      have rb: "rule_body g nb rc cc m = Inr ?m'"
        using rule_body_ok[where nb = nb and n = "n rc cc", OF assms(1,2) rm ig] nb[OF ig]
        by simp
      note u = upd[OF rm ig, of "next_state (g ! nat rc ! nat cc) (n rc cc)"]
      have keep: "?ok ?m' r c" if "in_grid R C (r, c)" "?ok m r c" for r c
        using u that by auto
      have new: "?ok ?m' rc cc"
        using u ig by auto
      have "?Q (dc @ [cc]) ?m'"
        using u[THEN conjunct1] Q keep new by auto
      with rb show "\<exists>s'. rule_body g nb rc cc m = Inr s' \<and> ?Q (dc @ [cc]) s'"
        by blast
    qed
    then show ?thesis
      by (auto simp: set_range1 in_grid_def)
  qed
  have "\<exists>ng. apply_rules g nb R C z = Inr ng \<and> ?P (range1 R) ng"
    unfolding apply_rules_def
  proof (rule for_loop_rule[where P = ?P])
    show "?P [] z" using assms(3) by simp
  next
    fix pre rc ng
    assume "?P pre ng" "rc \<in> set (range1 R)"
    then show "\<exists>s'. for_loop (range1 C) (\<lambda>cc ng. rule_body g nb rc cc ng) ng = Inr s' \<and>
                    ?P (pre @ [rc]) s'"
      by (rule inner)
  qed
  then show ?thesis
    by (auto simp: set_range1 in_grid_def)
qed

lemma rect_eqI:
  assumes "rect R C a" "rect R C b"
    and eq: "\<And>r c. in_grid R C (r, c) \<Longrightarrow> a ! nat r ! nat c = b ! nat r ! nat c"
  shows "a = b"
proof (rule nth_equalityI)
  show len: "length a = length b" using assms(1,2) by (simp add: rect_def)
  fix i assume i: "i < length a"
  then have ia: "a ! i \<in> set a" and ib: "b ! i \<in> set b" using len by simp_all
  have la: "int (length (a ! i)) = C" and lb: "int (length (b ! i)) = C"
    using assms(1,2) ia ib by (simp_all add: rect_def)
  show "a ! i = b ! i"
  proof (rule nth_equalityI)
    show "length (a ! i) = length (b ! i)" using la lb by simp
    fix j assume j: "j < length (a ! i)"
    have "in_grid R C (int i, int j)"
      using i j la assms(1) by (auto simp: in_grid_def rect_def)
    from eq[OF this] show "a ! i ! j = b ! i ! j" by simp
  qed
qed

lemma rect_zeros: "0 \<le> R \<Longrightarrow> 0 \<le> C \<Longrightarrow> np_zeros R C = Inr (replicate (nat R) (replicate (nat C) 0))"
  by (simp add: np_zeros_def)

lemma rect_replicate: "0 \<le> R \<Longrightarrow> 0 \<le> C \<Longrightarrow> rect R C (replicate (nat R) (replicate (nat C) v))"
  by (simp add: rect_def)

lemma rect_next_grid: "0 \<le> R \<Longrightarrow> 0 \<le> C \<Longrightarrow> rect R C (next_grid g R C)"
  by (auto simp: rect_def next_grid_def)

lemma next_grid_nth:
  "in_grid R C (r, c) \<Longrightarrow>
   next_grid g R C ! nat r ! nat c =
   next_state (g ! nat r ! nat c) (alive_neighbors g R C r c)"
  by (simp add: next_grid_def in_grid_def)

lemma make_step_next_grid:
  assumes "invariant self"
  shows "make_step self =
         Inr (self\<lparr>current_step := current_step self + 1,
                   store := store self @ [next_grid (cells self) (rows self) (cols self)],
                   life_grid := length (store self)\<rparr>)"
proof -
  let ?g = "cells self" and ?R = "rows self" and ?C = "cols self"
  from assms have r: "rect ?R ?C ?g" and b: "binary ?g" and C: "0 \<le> ?C"
    by (simp_all add: invariant_def shape_ok_def)
  from r have R: "0 \<le> ?R" by (auto simp: rect_def)
  from count_neighbors_ok[OF r b] obtain nb where
    nb: "count_neighbors ?g ?R ?C = Inr nb"
        "\<And>r c. in_grid ?R ?C (r, c) \<Longrightarrow> nb (r, c) = Some (int (alive_neighbors ?g ?R ?C r c))"
    by blast
  from apply_rules_ok[OF r b rect_replicate[OF R C, of 0], of nb "alive_neighbors ?g ?R ?C"] nb(2)
  obtain ng where
    ng: "apply_rules ?g nb ?R ?C (replicate (nat ?R) (replicate (nat ?C) 0)) = Inr ng"
        "rect ?R ?C ng"
        "\<And>r c. in_grid ?R ?C (r, c) \<Longrightarrow>
           ng ! nat r ! nat c = next_state (?g ! nat r ! nat c) (alive_neighbors ?g ?R ?C r c)"
    by blast
  have "ng = next_grid ?g ?R ?C"
    by (rule rect_eqI[OF ng(2) rect_next_grid[OF R C]]) (simp add: ng(3) next_grid_nth)
  then show ?thesis
    using nb(1) ng(1) rect_zeros[OF R C]
    by (simp add: make_step_def cells_def Let_def)
qed

subsection \<open>The positions around a cell\<close>

lemma neighbor_positions_in_grid:
  assumes "p \<in> set (neighbor_positions R C r c)"
  shows "in_grid R C p \<and> p \<noteq> (r, c) \<and> \<bar>fst p - r\<bar> \<le> 1 \<and> \<bar>snd p - c\<bar> \<le> 1"
proof -
  from assms have "in_grid R C p" and "p \<in> set (surrounding r c)"
    unfolding neighbor_positions_def by simp_all
  then show ?thesis
    by (auto simp: surrounding_def)
qed

lemma neighbor_positions_length: "length (neighbor_positions R C r c) \<le> 8"
proof -
  have "length (neighbor_positions R C r c) \<le> length (surrounding r c)"
    unfolding neighbor_positions_def by (rule length_filter_le)
  then show ?thesis by (simp add: surrounding_def)
qed

lemma neighbor_positions_corner: "length (neighbor_positions R C 0 0) \<le> 3"
  by (simp add: neighbor_positions_def surrounding_def in_grid_def)

section \<open>One generation\<close>

text \<open>
  Claim C1. On every grid that satisfies the invariant, \<^verbatim>\<open>make_step\<close> returns; the
  new array has the same dimensions and is appended to the store, so the array the
  step read is not touched and every new cell is computed from it. A cell of the new
  array is 1 exactly when the cell was 1 and 2 or 3 of its neighbours were alive, or
  the cell was 0 and exactly 3 were; otherwise it is 0. The neighbours counted are
  the positions around the cell that lie inside the grid: at most 8, each inside
  \<open>[0, rows) \<times> [0, cols)\<close> and next to the cell, and at most 3 for the corner \<open>(0, 0)\<close>.
\<close>

theorem make_step_rules:
  assumes "invariant self"
  shows "\<exists>self'. make_step self = Inr self' \<and>
           rows self' = rows self \<and> cols self' = cols self \<and>
           rect (rows self) (cols self) (cells self') \<and>
           store self' = store self @ [cells self'] \<and>
           (\<forall>r c. in_grid (rows self) (cols self) (r, c) \<longrightarrow>
              (cell self' r c = 1 \<or> cell self' r c = 0) \<and>
              (cell self' r c = 1 \<longleftrightarrow>
                 cell self r c = 1 \<and>
                   (alive_neighbors (cells self) (rows self) (cols self) r c = 2 \<or>
                    alive_neighbors (cells self) (rows self) (cols self) r c = 3) \<or>
                 cell self r c = 0 \<and>
                   alive_neighbors (cells self) (rows self) (cols self) r c = 3)) \<and>
           (\<forall>r c. length (neighbor_positions (rows self) (cols self) r c) \<le> 8 \<and>
              (\<forall>p \<in> set (neighbor_positions (rows self) (cols self) r c).
                 in_grid (rows self) (cols self) p \<and> p \<noteq> (r, c) \<and>
                 \<bar>fst p - r\<bar> \<le> 1 \<and> \<bar>snd p - c\<bar> \<le> 1)) \<and>
           length (neighbor_positions (rows self) (cols self) 0 0) \<le> 3"
proof -
  let ?R = "rows self" and ?C = "cols self"
  let ?s = "self\<lparr>current_step := current_step self + 1,
                 store := store self @ [next_grid (cells self) ?R ?C],
                 life_grid := length (store self)\<rparr>"
  from assms have C: "0 \<le> ?C" and r: "rect ?R ?C (cells self)"
    by (simp_all add: invariant_def shape_ok_def)
  from r have R: "0 \<le> ?R" by (auto simp: rect_def)
  have c: "cells ?s = next_grid (cells self) ?R ?C"
    by (simp add: cells_def)
  have "make_step self = Inr ?s"
    by (rule make_step_next_grid[OF assms])
  moreover have "rect ?R ?C (cells ?s)"
    unfolding c by (rule rect_next_grid[OF R C])
  moreover have "store ?s = store self @ [cells ?s]"
    unfolding c by simp
  moreover have "cell ?s r c = 1 \<or> cell ?s r c = 0" if "in_grid ?R ?C (r, c)" for r c
    unfolding cell_def c next_grid_nth[OF that] by (simp add: next_state_def)
  moreover have "cell ?s r c = 1 \<longleftrightarrow>
                 cell self r c = 1 \<and>
                   (alive_neighbors (cells self) ?R ?C r c = 2 \<or>
                    alive_neighbors (cells self) ?R ?C r c = 3) \<or>
                 cell self r c = 0 \<and> alive_neighbors (cells self) ?R ?C r c = 3"
    if "in_grid ?R ?C (r, c)" for r c
    unfolding cell_def c next_grid_nth[OF that] by (simp add: next_state_def)
  ultimately show ?thesis
    using neighbor_positions_in_grid neighbor_positions_length neighbor_positions_corner
    by (intro exI[of _ ?s]) simp
qed

text \<open>The blinker: the cell left of the middle is born, the top cell dies.\<close>

theorem make_step_rules_witness:
  "invariant blinker \<and>
   (\<exists>self'. make_step blinker = Inr self' \<and> cell self' 1 0 = 1 \<and> cell self' 0 1 = 0)"
proof -
  have inv: "invariant blinker"
    by (simp add: invariant_def shape_ok_def rect_def binary_def blinker_def cells_def)
  have g: "rows blinker = 3" "cols blinker = 3"
    "cells blinker = [[0, 1, 0], [0, 1, 0], [0, 1, 0]]"
    by (simp_all add: blinker_def cells_def)
  have n10: "alive_neighbors (cells blinker) 3 3 1 0 = 3"
    and n01: "alive_neighbors (cells blinker) 3 3 0 1 = 1"
    by (simp_all add: g alive_neighbors_def neighbor_positions_def surrounding_def
        in_grid_def alive_at_def)
  have c: "cell blinker 1 0 = 0" "cell blinker 0 1 = 1"
    by (simp_all add: cell_def g)
  from make_step_rules[OF inv] obtain self' where
    s: "make_step blinker = Inr self'"
    and rule: "\<And>r c. in_grid 3 3 (r, c) \<Longrightarrow>
              (cell self' r c = 1 \<or> cell self' r c = 0) \<and>
              (cell self' r c = 1 \<longleftrightarrow>
                 cell blinker r c = 1 \<and>
                   (alive_neighbors (cells blinker) 3 3 r c = 2 \<or>
                    alive_neighbors (cells blinker) 3 3 r c = 3) \<or>
                 cell blinker r c = 0 \<and> alive_neighbors (cells blinker) 3 3 r c = 3)"
    unfolding g(1,2) by blast
  have "cell self' 1 0 = 1"
    using rule[of 1 0] by (simp add: in_grid_def n10 c)
  moreover have "cell self' 0 1 = 0"
    using rule[of 0 1] by (auto simp: in_grid_def n01 c)
  ultimately show ?thesis using inv s by blast
qed

section \<open>Several generations\<close>

lemma for_loop_make_step:
  "for_loop xs (\<lambda>i s. make_step s) self = step_times (length xs) self"
  by (induction xs arbitrary: self) (simp_all split: sum.splits)

lemma length_range2: "length (range2 a b) = nat (b - a)"
  by (simp add: range2_def)

lemma range2_empty: "b \<le> a \<Longrightarrow> range2 a b = []"
  by (simp add: range2_def)

text \<open>
  Claim C3. For every state and every \<open>n \<ge> 0\<close>, \<^verbatim>\<open>make_n_steps(n)\<close> has the outcome
  of \<open>n\<close> calls of \<^verbatim>\<open>make_step\<close> in sequence: the same object (cells, generation
  counter, store) when they return, the same exception at the same state when one of
  them raises. \<^verbatim>\<open>make_n_steps(0)\<close> returns the state as it is.
\<close>

theorem make_n_steps_step_times:
  "(0 \<le> n \<longrightarrow> make_n_steps n self = step_times (nat n) self) \<and>
   make_n_steps 0 self = Inr self"
  by (simp add: make_n_steps_def for_loop_make_step length_range2 range2_empty)

text \<open>Two generations of the blinker, computed step by step.\<close>

theorem make_n_steps_step_times_witness:
  "(0::int) \<le> 2 \<and> make_n_steps 2 blinker = step_times (nat 2) blinker \<and>
   step_times (nat 2) blinker =
     Inr \<lparr>store = [[[0, 1, 0], [0, 1, 0], [0, 1, 0]],
                   [[0, 0, 0], [1, 1, 1], [0, 0, 0]],
                   [[0, 1, 0], [0, 1, 0], [0, 1, 0]]],
          rows = 3, cols = 3, life_grid = 2, current_step = 2\<rparr>"
proof -
  have "step_times (nat 2) blinker =
     Inr \<lparr>store = [[[0, 1, 0], [0, 1, 0], [0, 1, 0]],
                   [[0, 0, 0], [1, 1, 1], [0, 0, 0]],
                   [[0, 1, 0], [0, 1, 0], [0, 1, 0]]],
          rows = 3, cols = 3, life_grid = 2, current_step = 2\<rparr>"
    by code_simp
  then show ?thesis
    using make_n_steps_step_times[of 2 blinker] by simp
qed

text \<open>
  Claim C6, as the specification states it, asks for an exception on a negative
  \<open>n\<close>. The loop \<^verbatim>\<open>for i in range(1, n + 1)\<close> is then empty: the call returns.
\<close>

theorem make_n_steps_negative_counterexample:
  "make_n_steps (- 1) blinker = Inr blinker"
  by (simp add: make_n_steps_def range2_def)

text \<open>
  Claim C6, amended. For every state and every negative \<open>n\<close>, \<^verbatim>\<open>make_n_steps(n)\<close>
  returns without an exception and leaves the cells and the generation counter as
  they are.
\<close>

theorem make_n_steps_negative:
  "n < 0 \<Longrightarrow> make_n_steps n self = Inr self"
  by (simp add: make_n_steps_def range2_empty)

theorem make_n_steps_negative_witness:
  "(- 3 :: int) < 0 \<and>
   make_n_steps (- 3) (blinker\<lparr>current_step := 7\<rparr>) = Inr (blinker\<lparr>current_step := 7\<rparr>)"
  using make_n_steps_negative[of "- 3" "blinker\<lparr>current_step := 7\<rparr>"] by simp

section \<open>Construction\<close>




section \<open>Random seeding\<close>

text \<open>
  Claim C7. For every state and every density below 0 or above 1, \<^verbatim>\<open>randomize\<close>
  fails: \<^verbatim>\<open>np.random.choice\<close> refuses the probabilities \<open>[1 - density, density]\<close> with a
  \<^verbatim>\<open>ValueError\<close>, before \<^verbatim>\<open>life_grid\<close> or \<^verbatim>\<open>current_step\<close> is assigned, so the
  object at the exception is the object before the call.
\<close>

theorem randomize_rejects_density:
  "density < 0 \<or> 1 < density \<Longrightarrow> randomize density draw self = Inl (ValueError, self)"
  by (auto simp: randomize_def np_random_choice_def)

theorem randomize_rejects_density_witness:
  "((3 / 2 :: real) < 0 \<or> 1 < (3 / 2 :: real)) \<and>
   randomize (3 / 2) (\<lambda>i j. 1 / 2) blinker = Inl (ValueError, blinker)"
  using randomize_rejects_density[of "3 / 2" "\<lambda>i j. 1 / 2" blinker] by simp

section \<open>Seeding by coordinates\<close>


lemma populated_Nil: "populated [] g = g"
  by (simp add: populated_def map_nth)

lemma rect_populated: "rect R C g \<Longrightarrow> rect R C (populated coords g)"
  by (auto simp: rect_def populated_def)

lemma populated_nth:
  assumes "rect R C g" "in_grid R C (r, c)"
  shows "populated coords g ! nat r ! nat c =
         (if (r, c) \<in> set coords then 1 else g ! nat r ! nat c)"
  using rect_entry[OF assms] assms(2) by (simp add: populated_def in_grid_def)

lemma populated_set: "set cs = set cs' \<Longrightarrow> populated cs g = populated cs' g"
  by (simp add: populated_def)

lemma shape_ok_store_update:
  assumes "shape_ok self" "rect (rows self) (cols self) a"
  shows "shape_ok (self\<lparr>store := (store self)[life_grid self := a]\<rparr>)"
    and "cells (self\<lparr>store := (store self)[life_grid self := a]\<rparr>) = a"
  using assms by (simp_all add: shape_ok_def cells_def)

lemma populate_body_ok:
  assumes "shape_ok self"
  shows "populate_body rc self =
         Inr (self\<lparr>store := (store self)[life_grid self := populated [rc] (cells self)]\<rparr>)"
proof -
  let ?R = "rows self" and ?C = "cols self" and ?g = "cells self"
  obtain r c where rc: "rc = (r, c)" by (cases rc)
  from assms have rect: "rect ?R ?C ?g" and lg: "life_grid self < length (store self)"
    by (simp_all add: shape_ok_def)
  show ?thesis
  proof (cases "in_grid ?R ?C (r, c)")
    case True
    then have b: "0 \<le> r" "r < ?R" "0 \<le> c" "c < ?C" by (simp_all add: in_grid_def)
    have "?g[nat r := (?g ! nat r)[nat c := 1]] = populated [rc] ?g"
    proof (rule rect_eqI[OF rect_update[OF rect] rect_populated[OF rect]])
      fix r' c' assume ig: "in_grid ?R ?C (r', c')"
      show "?g[nat r := (?g ! nat r)[nat c := 1]] ! nat r' ! nat c' =
            populated [rc] ?g ! nat r' ! nat c'"
        using rect_entry[OF rect True] ig b
        by (auto simp: populated_nth[OF rect ig] nth_update2 rc in_grid_def)
    qed
    then show ?thesis
      using b setitem2_ok[OF rect b int64_range_0_1(2)]
      by (simp add: populate_body_def rc cells_def)
  next
    case False
    have "populated [rc] ?g = ?g"
    proof (rule rect_eqI[OF rect_populated[OF rect] rect])
      fix r' c' assume ig: "in_grid ?R ?C (r', c')"
      with False have "(r', c') \<noteq> (r, c)" by auto
      then show "populated [rc] ?g ! nat r' ! nat c' = ?g ! nat r' ! nat c'"
        by (auto simp: populated_nth[OF rect ig] rc)
    qed
    moreover from False have "\<not> (0 \<le> r \<and> r < ?R \<and> 0 \<le> c \<and> c < ?C)"
      by (simp add: in_grid_def)
    ultimately show ?thesis
      by (auto simp: populate_body_def rc cells_def list_update_same_conv)
  qed
qed

lemma populated_Cons:
  assumes "rect R C g"
  shows "populated cs (populated [rc] g) = populated (rc # cs) g"
proof (rule rect_eqI[OF rect_populated[OF rect_populated[OF assms]] rect_populated[OF assms]])
  fix r c assume ig: "in_grid R C (r, c)"
  show "populated cs (populated [rc] g) ! nat r ! nat c = populated (rc # cs) g ! nat r ! nat c"
    by (auto simp: populated_nth[OF rect_populated[OF assms] ig] populated_nth[OF assms ig])
qed

lemma for_loop_populate:
  "shape_ok self \<Longrightarrow>
   for_loop coords populate_body self =
   Inr (self\<lparr>store := (store self)[life_grid self := populated coords (cells self)]\<rparr>)"
proof (induction coords arbitrary: self)
  case Nil
  then show ?case by (simp add: populated_Nil cells_def)
next
  case (Cons rc coords)
  let ?a = "populated [rc] (cells self)"
  let ?s1 = "self\<lparr>store := (store self)[life_grid self := ?a]\<rparr>"
  from Cons.prems have rect: "rect (rows self) (cols self) (cells self)"
    by (simp add: shape_ok_def)
  note u = shape_ok_store_update[OF Cons.prems rect_populated[OF rect, of "[rc]"]]
  have "for_loop coords populate_body ?s1 =
        Inr (?s1\<lparr>store := (store ?s1)[life_grid ?s1 := populated coords (cells ?s1)]\<rparr>)"
    by (rule Cons.IH[OF u(1)])
  then show ?case
    by (simp add: populate_body_ok[OF Cons.prems] u(2) populated_Cons[OF rect])
qed

lemma populate_grid_populated:
  "shape_ok self \<Longrightarrow>
   populate_grid coords self =
   Inr (self\<lparr>store := (store self)[life_grid self := populated coords (cells self)],
             current_step := 0\<rparr>)"
  by (simp add: populate_grid_def for_loop_populate)

text \<open>
  Claim C4. On every state whose array has the dimensions \<open>rows \<times> cols\<close> and for every
  list of pairs, \<^verbatim>\<open>populate_grid\<close> returns without an exception; the dimensions stay;
  a cell inside the grid is 1 afterwards if its pair is in the list and is as before
  otherwise, so a cell that was alive is still alive; and when no pair of the list
  lies inside the grid the array is unchanged.
\<close>

theorem populate_grid_sets_cells:
  assumes "shape_ok self"
  shows "\<exists>self'. populate_grid coords self = Inr self' \<and>
           rows self' = rows self \<and> cols self' = cols self \<and>
           rect (rows self) (cols self) (cells self') \<and>
           (\<forall>r c. in_grid (rows self) (cols self) (r, c) \<longrightarrow>
              cell self' r c = (if (r, c) \<in> set coords then 1 else cell self r c)) \<and>
           (\<forall>r c. in_grid (rows self) (cols self) (r, c) \<longrightarrow>
              cell self r c = 1 \<longrightarrow> cell self' r c = 1) \<and>
           ((\<forall>p \<in> set coords. \<not> in_grid (rows self) (cols self) p) \<longrightarrow>
              cells self' = cells self)"
proof -
  let ?R = "rows self" and ?C = "cols self"
  let ?a = "populated coords (cells self)"
  let ?s = "self\<lparr>store := (store self)[life_grid self := ?a], current_step := 0\<rparr>"
  from assms have rect: "rect ?R ?C (cells self)"
    and lg: "life_grid self < length (store self)"
    by (simp_all add: shape_ok_def)
  have c: "cells ?s = ?a"
    using lg by (simp add: cells_def)
  have "populate_grid coords self = Inr ?s"
    by (rule populate_grid_populated[OF assms])
  moreover have "rect ?R ?C (cells ?s)"
    unfolding c by (rule rect_populated[OF rect])
  moreover have nth: "cell ?s r c = (if (r, c) \<in> set coords then 1 else cell self r c)"
    if "in_grid ?R ?C (r, c)" for r c
    unfolding cell_def c by (rule populated_nth[OF rect that])
  moreover have "cells ?s = cells self" if "\<forall>p \<in> set coords. \<not> in_grid ?R ?C p"
    unfolding c
  proof (rule rect_eqI[OF rect_populated[OF rect] rect])
    fix r c assume ig: "in_grid ?R ?C (r, c)"
    with that have "(r, c) \<notin> set coords" by auto
    then show "?a ! nat r ! nat c = cells self ! nat r ! nat c"
      by (simp add: populated_nth[OF rect ig])
  qed
  ultimately show ?thesis
    by (intro exI[of _ ?s]) simp
qed

text \<open>
  On the empty 3 by 3 grid: \<^verbatim>\<open>[(5, 5)]\<close> changes nothing; \<^verbatim>\<open>[(0, 0), (3, 1)]\<close> sets
  the cell \<open>(0, 0)\<close> and no other.
\<close>

theorem populate_grid_sets_cells_witness:
  "shape_ok empty3 \<and>
   (\<exists>self'. populate_grid [(5, 5)] empty3 = Inr self' \<and> cells self' = cells empty3) \<and>
   (\<exists>self'. populate_grid [(0, 0), (3, 1)] empty3 = Inr self' \<and>
      cell self' 0 0 = 1 \<and> cell self' 0 1 = 0 \<and> cell self' 2 1 = 0)"
proof -
  have ok: "shape_ok empty3"
    by (simp add: shape_ok_def rect_def empty3_def cells_def)
  have d: "rows empty3 = 3" "cols empty3 = 3"
    by (simp_all add: empty3_def)
  have z: "cell empty3 r c = 0" if "in_grid 3 3 (r, c)" for r c
  proof -
    from that have "nat r < 3" "nat c < 3" by (auto simp: in_grid_def)
    then have "nat r \<in> {0, 1, 2}" "nat c \<in> {0, 1, 2}" by auto
    then show ?thesis by (auto simp: cell_def cells_def empty3_def)
  qed
  from populate_grid_sets_cells[OF ok, of "[(5, 5)]"]
  have a: "\<exists>self'. populate_grid [(5, 5)] empty3 = Inr self' \<and> cells self' = cells empty3"
    by (auto simp: d in_grid_def)
  from populate_grid_sets_cells[OF ok, of "[(0, 0), (3, 1)]"] obtain self' where
    s: "populate_grid [(0, 0), (3, 1)] empty3 = Inr self'"
    and nth: "\<And>r c. in_grid 3 3 (r, c) \<Longrightarrow>
                cell self' r c = (if (r, c) \<in> set [(0, 0), (3, 1)] then 1 else cell empty3 r c)"
    unfolding d by blast
  have "cell self' 0 0 = 1" "cell self' 0 1 = 0" "cell self' 2 1 = 0"
    using nth[of 0 0] nth[of 0 1] nth[of 2 1] z[of 0 1] z[of 2 1]
    by (simp_all add: in_grid_def)
  with s a ok show ?thesis by blast
qed

text \<open>
  Claim C10. On every state whose array has the dimensions \<open>rows \<times> cols\<close>, the outcome
  of \<^verbatim>\<open>populate_grid\<close> (cells, generation counter, the whole object) depends only on
  the set of pairs in the list: two lists with the same pairs, in any order and with
  any repetitions, give the same outcome; so do the reversed list and the list
  written twice; and a second call with the same list changes nothing.
\<close>

theorem populate_grid_order_multiplicity:
  assumes "shape_ok self"
  shows "(set coords = set coords' \<longrightarrow>
            populate_grid coords self = populate_grid coords' self) \<and>
         populate_grid (rev coords) self = populate_grid coords self \<and>
         populate_grid (coords @ coords) self = populate_grid coords self \<and>
         (\<exists>self'. populate_grid coords self = Inr self' \<and>
                   populate_grid coords self' = Inr self')"
proof -
  let ?a = "populated coords (cells self)"
  let ?s = "self\<lparr>store := (store self)[life_grid self := ?a], current_step := 0\<rparr>"
  from assms have rect: "rect (rows self) (cols self) (cells self)"
    and lg: "life_grid self < length (store self)"
    by (simp_all add: shape_ok_def)
  have eq: "populate_grid cs self = populate_grid cs' self" if "set cs = set cs'" for cs cs'
    by (simp add: populate_grid_populated[OF assms] populated_set[OF that])
  have c: "cells ?s = ?a"
    using lg by (simp add: cells_def)
  have ok: "shape_ok ?s"
    using assms rect_populated[OF rect, of coords] by (simp add: shape_ok_def cells_def)
  have idem: "populated coords ?a = ?a"
  proof (rule rect_eqI[OF rect_populated[OF rect_populated[OF rect]] rect_populated[OF rect]])
    fix r c assume ig: "in_grid (rows self) (cols self) (r, c)"
    show "populated coords ?a ! nat r ! nat c = ?a ! nat r ! nat c"
      by (simp add: populated_nth[OF rect_populated[OF rect] ig] populated_nth[OF rect ig])
  qed
  have "populate_grid coords ?s = Inr ?s"
    unfolding populate_grid_populated[OF ok] c idem by simp
  then have "\<exists>self'. populate_grid coords self = Inr self' \<and>
                     populate_grid coords self' = Inr self'"
    by (simp add: populate_grid_populated[OF assms])
  then show ?thesis
    using eq[of coords coords'] eq[of "rev coords" coords] eq[of "coords @ coords" coords]
    by simp
qed

theorem populate_grid_order_multiplicity_witness:
  "shape_ok blinker \<and>
   populate_grid [(1, 2), (0, 0), (1, 2), (4, 4)] blinker =
   populate_grid [(4, 4), (0, 0), (1, 2)] blinker \<and>
   (\<exists>self'. populate_grid [(4, 4), (0, 0), (1, 2)] blinker = Inr self' \<and>
      populate_grid [(4, 4), (0, 0), (1, 2)] self' = Inr self')"
proof -
  have ok: "shape_ok blinker"
    by (simp add: shape_ok_def rect_def blinker_def cells_def)
  have "set [(1, 2), (0, 0), (1, 2), (4, 4)] = set [(4, 4), (0, 0), (1 :: int, 2 :: int)]"
    by auto
  with populate_grid_order_multiplicity[OF ok,
      of "[(1, 2), (0, 0), (1, 2), (4, 4)]" "[(4, 4), (0, 0), (1, 2)]"]
    populate_grid_order_multiplicity[OF ok,
      of "[(4, 4), (0, 0), (1, 2)]" "[(4, 4), (0, 0), (1, 2)]"] ok
  show ?thesis by blast
qed

section \<open>The grid invariant\<close>

lemma binary_next_grid: "binary (next_grid g R C)"
  by (auto simp: binary_def next_grid_def next_state_def)

lemma binary_populated:
  assumes "binary g"
  shows "binary (populated coords g)"
proof -
  have "g ! i ! j = 0 \<or> g ! i ! j = 1" if "i < length g" "j < length (g ! i)" for i j
  proof -
    from that have "g ! i \<in> set g" "g ! i ! j \<in> set (g ! i)" by simp_all
    with assms show ?thesis unfolding binary_def by blast
  qed
  then show ?thesis
    unfolding binary_def populated_def by fastforce
qed

lemma invariant_init:
  assumes "GameOfLife_init m n = Inr self"
  shows "invariant self \<and> rows self = m \<and> cols self = n \<and> current_step self = 0"
proof -
  from assms have mn: "0 \<le> m" "0 \<le> n"
    by (auto simp: GameOfLife_init_def np_zeros_def split: if_splits)
  with assms have "self = \<lparr>store = [replicate (nat m) (replicate (nat n) 0)], rows = m,
      cols = n, life_grid = 0, current_step = 0\<rparr>"
    by (auto simp: GameOfLife_init_def np_zeros_def)
  then show ?thesis
    using mn by (simp add: invariant_def shape_ok_def cells_def rect_def binary_def)
qed

lemma invariant_make_step:
  assumes "invariant self"
  shows "\<exists>self'. make_step self = Inr self' \<and> invariant self' \<and>
           rows self' = rows self \<and> cols self' = cols self \<and>
           current_step self' = current_step self + 1"
proof -
  from assms have C: "0 \<le> cols self" and r: "rect (rows self) (cols self) (cells self)"
    by (simp_all add: invariant_def shape_ok_def)
  from r have R: "0 \<le> rows self" by (auto simp: rect_def)
  show ?thesis
    using rect_next_grid[OF R C, of "cells self"] C
    by (simp add: make_step_next_grid[OF assms] invariant_def shape_ok_def cells_def
        binary_next_grid)
qed

lemma invariant_step_times:
  "invariant self \<Longrightarrow>
   \<exists>self'. step_times k self = Inr self' \<and> invariant self' \<and>
     rows self' = rows self \<and> cols self' = cols self \<and>
     current_step self' = current_step self + int k"
proof (induction k arbitrary: self)
  case 0
  then show ?case by simp
next
  case (Suc k)
  from invariant_make_step[OF Suc.prems] obtain s1 where
    s1: "make_step self = Inr s1" "invariant s1" "rows s1 = rows self" "cols s1 = cols self"
        "current_step s1 = current_step self + 1"
    by blast
  from Suc.IH[OF s1(2)] s1 show ?case by auto
qed

lemma invariant_make_n_steps:
  assumes "invariant self"
  shows "\<exists>self'. make_n_steps n self = Inr self' \<and> invariant self' \<and>
     rows self' = rows self \<and> cols self' = cols self \<and>
     current_step self' = current_step self + max 0 n"
  using invariant_step_times[OF assms, of "nat n"]
  by (auto simp: make_n_steps_def for_loop_make_step length_range2 max_def)

lemma invariant_populate_grid:
  assumes "invariant self"
  shows "\<exists>self'. populate_grid coords self = Inr self' \<and> invariant self' \<and>
     rows self' = rows self \<and> cols self' = cols self \<and> current_step self' = 0"
proof -
  from assms have ok: "shape_ok self" and b: "binary (cells self)"
    by (simp_all add: invariant_def)
  then have r: "rect (rows self) (cols self) (cells self)"
    by (simp add: shape_ok_def)
  show ?thesis
    using ok rect_populated[OF r, of coords] binary_populated[OF b, of coords]
    by (simp add: populate_grid_populated[OF ok] invariant_def shape_ok_def cells_def)
qed

lemma invariant_randomize:
  assumes "invariant self" "0 \<le> density" "density \<le> 1"
  shows "\<exists>self'. randomize density draw self = Inr self' \<and> invariant self' \<and>
     rows self' = rows self \<and> cols self' = cols self \<and> current_step self' = 0"
proof -
  from assms have C: "0 \<le> cols self" and r: "rect (rows self) (cols self) (cells self)"
    by (simp_all add: invariant_def shape_ok_def)
  from r have R: "0 \<le> rows self" by (auto simp: rect_def)
  show ?thesis
    using R C assms(2,3)
    by (auto simp: randomize_def np_random_choice_def invariant_def shape_ok_def cells_def
        rect_def binary_def)
qed

text \<open>
  Claim C8. The invariant says that the array has exactly \<open>rows \<times> cols\<close> entries and
  that every entry is 0 or 1. A constructed object satisfies it and has generation
  counter 0. On an object that satisfies it, \<^verbatim>\<open>make_step\<close> returns, keeps the
  invariant and the dimensions and adds exactly 1 to the counter;
  \<^verbatim>\<open>make_n_steps(k)\<close> returns, keeps them and adds \<open>max 0 k\<close>; \<^verbatim>\<open>populate_grid\<close>
  returns, keeps them and sets the counter to 0; and \<^verbatim>\<open>randomize\<close> with a density in
  \<open>[0, 1]\<close> returns, keeps them and sets the counter to 0, whatever the generator
  draws.
\<close>

theorem operations_keep_invariant:
  "(\<forall>s0. GameOfLife_init m n = Inr s0 \<longrightarrow>
      invariant s0 \<and> rows s0 = m \<and> cols s0 = n \<and> current_step s0 = 0) \<and>
   (invariant self \<longrightarrow>
      (\<exists>self'. make_step self = Inr self' \<and> invariant self' \<and>
         rows self' = rows self \<and> cols self' = cols self \<and>
         current_step self' = current_step self + 1) \<and>
      (\<exists>self'. make_n_steps k self = Inr self' \<and> invariant self' \<and>
         rows self' = rows self \<and> cols self' = cols self \<and>
         current_step self' = current_step self + max 0 k) \<and>
      (\<exists>self'. populate_grid coords self = Inr self' \<and> invariant self' \<and>
         rows self' = rows self \<and> cols self' = cols self \<and> current_step self' = 0) \<and>
      (0 \<le> density \<and> density \<le> 1 \<longrightarrow>
         (\<exists>self'. randomize density draw self = Inr self' \<and> invariant self' \<and>
            rows self' = rows self \<and> cols self' = cols self \<and> current_step self' = 0)))"
  using invariant_init[of m n] invariant_make_step[of self] invariant_make_n_steps[of self k]
    invariant_populate_grid[of self coords] invariant_randomize[of self density draw]
  by blast

theorem operations_keep_invariant_witness:
  "invariant blinker \<and>
   (\<exists>s0. GameOfLife_init 3 3 = Inr s0 \<and> invariant s0 \<and> current_step s0 = 0) \<and>
   (\<exists>self'. make_step blinker = Inr self' \<and> invariant self' \<and> current_step self' = 1) \<and>
   (\<exists>self'. make_n_steps 2 blinker = Inr self' \<and> invariant self' \<and> current_step self' = 2) \<and>
   (\<exists>self'. populate_grid [(0, 0)] (blinker\<lparr>current_step := 5\<rparr>) = Inr self' \<and>
      invariant self' \<and> current_step self' = 0) \<and>
   (\<exists>self'. randomize (1 / 2) (\<lambda>i j. 1 / 3) (blinker\<lparr>current_step := 5\<rparr>) = Inr self' \<and>
      invariant self' \<and> current_step self' = 0)"
proof -
  have inv: "invariant blinker"
    by (simp add: invariant_def shape_ok_def rect_def binary_def blinker_def cells_def)
  have inv5: "invariant (blinker\<lparr>current_step := 5\<rparr>)"
    by (simp add: invariant_def shape_ok_def rect_def binary_def blinker_def cells_def)
  have i: "GameOfLife_init 3 3 = Inr empty3"
    by (simp add: GameOfLife_init_def np_zeros_def empty3_def numeral_3_eq_3)
  have cs: "current_step blinker = 0" by (simp add: blinker_def)
  from operations_keep_invariant[of 3 3 blinker 2 "[]" "1 / 2" "\<lambda>i j. 1 / 3"] inv i cs
  have a: "\<exists>s0. GameOfLife_init 3 3 = Inr s0 \<and> invariant s0 \<and> current_step s0 = 0"
    and b: "\<exists>self'. make_step blinker = Inr self' \<and> invariant self' \<and> current_step self' = 1"
    and c: "\<exists>self'. make_n_steps 2 blinker = Inr self' \<and> invariant self' \<and> current_step self' = 2"
    by auto
  from operations_keep_invariant[of 3 3 "blinker\<lparr>current_step := 5\<rparr>" 0 "[(0, 0)]" "1 / 2"
      "\<lambda>i j. 1 / 3"] inv5
  have d: "\<exists>self'. populate_grid [(0, 0)] (blinker\<lparr>current_step := 5\<rparr>) = Inr self' \<and>
      invariant self' \<and> current_step self' = 0"
    and e: "\<exists>self'. randomize (1 / 2) (\<lambda>i j. 1 / 3) (blinker\<lparr>current_step := 5\<rparr>) = Inr self' \<and>
      invariant self' \<and> current_step self' = 0"
    by auto
  from inv a b c d e show ?thesis by blast
qed

section \<open>Reading the grid\<close>

lemma cells_mutated_differ:
  "cells (blinker\<lparr>store := [[[1, 1, 0], [0, 1, 0], [0, 1, 0]]]\<rparr>) \<noteq> cells blinker"
  by (simp add: cells_def blinker_def)

text \<open>
  Claim C2, as the specification states it, asks that a write to the array
  \<^verbatim>\<open>get_grid\<close> returned leaves the object's cells and every later result unchanged.
  \<^verbatim>\<open>get_grid\<close> returns \<^verbatim>\<open>self.life_grid\<close> itself: on the blinker, the caller's write
  of 1 at \<open>(0, 0)\<close> changes the object's cells, and the next generation differs.
\<close>

theorem get_grid_alias_counterexample:
  "caller_setitem (get_grid blinker) 0 0 1 blinker =
     Inr (blinker\<lparr>store := [[[1, 1, 0], [0, 1, 0], [0, 1, 0]]]\<rparr>) \<and>
   cells (blinker\<lparr>store := [[[1, 1, 0], [0, 1, 0], [0, 1, 0]]]\<rparr>) \<noteq> cells blinker \<and>
   make_step blinker =
     Inr \<lparr>store = [[[0, 1, 0], [0, 1, 0], [0, 1, 0]], [[0, 0, 0], [1, 1, 1], [0, 0, 0]]],
          rows = 3, cols = 3, life_grid = 1, current_step = 1\<rparr> \<and>
   make_step (blinker\<lparr>store := [[[1, 1, 0], [0, 1, 0], [0, 1, 0]]]\<rparr>) =
     Inr \<lparr>store = [[[1, 1, 0], [0, 1, 0], [0, 1, 0]], [[1, 1, 0], [0, 1, 1], [0, 0, 0]]],
          rows = 3, cols = 3, life_grid = 1, current_step = 1\<rparr>"
proof -
  have "caller_setitem (get_grid blinker) 0 0 1 blinker =
     Inr (blinker\<lparr>store := [[[1, 1, 0], [0, 1, 0], [0, 1, 0]]]\<rparr>)"
    by (simp add: caller_setitem_def get_grid_def blinker_def setitem2_def axis_index_def
        int64_range_def)
  moreover have "make_step blinker =
     Inr \<lparr>store = [[[0, 1, 0], [0, 1, 0], [0, 1, 0]], [[0, 0, 0], [1, 1, 1], [0, 0, 0]]],
          rows = 3, cols = 3, life_grid = 1, current_step = 1\<rparr>"
    by code_simp
  moreover have "make_step (blinker\<lparr>store := [[[1, 1, 0], [0, 1, 0], [0, 1, 0]]]\<rparr>) =
     Inr \<lparr>store = [[[1, 1, 0], [0, 1, 0], [0, 1, 0]], [[1, 1, 0], [0, 1, 1], [0, 0, 0]]],
          rows = 3, cols = 3, life_grid = 1, current_step = 1\<rparr>"
    by code_simp
  ultimately show ?thesis
    using cells_mutated_differ by simp
qed

text \<open>
  Claim C2, amended. \<^verbatim>\<open>get_grid\<close> returns the reference the object holds, not a
  copy, and changes nothing. A write through it at a position inside the grid is a
  write to the object's array: when the value fits a 64-bit entry the object then has
  the written value there, and every other cell, the dimensions and the generation
  counter are as before; when it does not fit, the write raises \<^verbatim>\<open>OverflowError\<close>
  and the object is as before.
\<close>

theorem get_grid_alias:
  assumes "shape_ok self" "in_grid (rows self) (cols self) (r, c)"
  shows "get_grid self = life_grid self \<and>
         (int64_range v \<longrightarrow>
            (\<exists>self'. caller_setitem (get_grid self) r c v self = Inr self' \<and>
               cell self' r c = v \<and>
               (\<forall>r' c'. in_grid (rows self) (cols self) (r', c') \<longrightarrow> (r', c') \<noteq> (r, c) \<longrightarrow>
                  cell self' r' c' = cell self r' c') \<and>
               rows self' = rows self \<and> cols self' = cols self \<and>
               life_grid self' = life_grid self \<and> current_step self' = current_step self)) \<and>
         (\<not> int64_range v \<longrightarrow>
            caller_setitem (get_grid self) r c v self = Inl (OverflowError, self))"
proof -
  let ?R = "rows self" and ?C = "cols self" and ?g = "cells self"
  let ?a = "?g[nat r := (?g ! nat r)[nat c := v]]"
  let ?s = "self\<lparr>store := (store self)[life_grid self := ?a]\<rparr>"
  from assms(1) have rect: "rect ?R ?C ?g" and lg: "life_grid self < length (store self)"
    by (simp_all add: shape_ok_def)
  from assms(2) have b: "0 \<le> r" "r < ?R" "0 \<le> c" "c < ?C"
    by (simp_all add: in_grid_def)
  have c: "cells ?s = ?a" using lg by (simp add: cells_def)
  have w: "caller_setitem (get_grid self) r c v self = Inr ?s" if "int64_range v"
    using setitem2_ok[OF rect b that]
    by (simp add: caller_setitem_def get_grid_def cells_def)
  have o: "caller_setitem (get_grid self) r c v self = Inl (OverflowError, self)"
    if "\<not> int64_range v"
    using setitem2_overflow[OF rect b that]
    by (simp add: caller_setitem_def get_grid_def cells_def)
  have n: "cell ?s r c = v"
    unfolding cell_def c using rect_entry[OF rect assms(2)] by (simp add: nth_update2)
  have k: "cell ?s r' c' = cell self r' c'"
    if "in_grid ?R ?C (r', c')" "(r', c') \<noteq> (r, c)" for r' c'
    unfolding cell_def c using rect_entry[OF rect assms(2)] that b
    by (auto simp: nth_update2 in_grid_def)
  have "\<exists>self'. caller_setitem (get_grid self) r c v self = Inr self' \<and>
               cell self' r c = v \<and>
               (\<forall>r' c'. in_grid ?R ?C (r', c') \<longrightarrow> (r', c') \<noteq> (r, c) \<longrightarrow>
                  cell self' r' c' = cell self r' c') \<and>
               rows self' = ?R \<and> cols self' = ?C \<and>
               life_grid self' = life_grid self \<and> current_step self' = current_step self"
    if "int64_range v"
    using w[OF that] n k by (intro exI[of _ ?s]) simp
  with o show ?thesis
    by (simp add: get_grid_def)
qed

text \<open>On the blinker: the write of 7 lands in the object's cell; the write of \<open>2^63\<close> raises.\<close>

theorem get_grid_alias_witness:
  "shape_ok blinker \<and> in_grid (rows blinker) (cols blinker) (2, 2) \<and>
   int64_range 7 \<and> \<not> int64_range (2 ^ 63) \<and>
   (\<exists>self'. caller_setitem (get_grid blinker) 2 2 7 blinker = Inr self' \<and>
      cell self' 2 2 = 7 \<and> cell self' 0 1 = cell blinker 0 1) \<and>
   caller_setitem (get_grid blinker) 2 2 (2 ^ 63) blinker = Inl (OverflowError, blinker)"
proof -
  have ok: "shape_ok blinker"
    by (simp add: shape_ok_def rect_def blinker_def cells_def)
  have ig: "in_grid (rows blinker) (cols blinker) (2, 2)"
    "in_grid (rows blinker) (cols blinker) (0, 1)"
    by (simp_all add: in_grid_def blinker_def)
  have v: "int64_range 7" "\<not> int64_range (2 ^ 63)"
    by (simp_all add: int64_range_def)
  from get_grid_alias[OF ok ig(1), of 7] v(1) ig(2)
  have a: "\<exists>self'. caller_setitem (get_grid blinker) 2 2 7 blinker = Inr self' \<and>
      cell self' 2 2 = 7 \<and> cell self' 0 1 = cell blinker 0 1"
    by fastforce
  from get_grid_alias[OF ok ig(1), of "2 ^ 63"] v(2)
  have b: "caller_setitem (get_grid blinker) 2 2 (2 ^ 63) blinker = Inl (OverflowError, blinker)"
    by blast
  from ok ig(1) v a b show ?thesis by blast
qed

section \<open>The glider\<close>

lemma rect_pattern: "0 \<le> R \<Longrightarrow> 0 \<le> C \<Longrightarrow> rect R C (pattern R C A)"
  by (auto simp: rect_def pattern_def)

lemma binary_pattern: "binary (pattern R C A)"
  by (auto simp: binary_def pattern_def)

lemma pattern_nth:
  "in_grid R C (r, c) \<Longrightarrow> pattern R C A ! nat r ! nat c = (if (r, c) \<in> set A then 1 else 0)"
  by (simp add: pattern_def in_grid_def)

lemma alive_at_pattern:
  "in_grid R C p \<Longrightarrow> alive_at (pattern R C A) p \<longleftrightarrow> p \<in> set A"
  using pattern_nth[of R C "fst p" "snd p" A] by (simp add: alive_at_def)

lemma alive_neighbors_pattern:
  assumes "\<forall>p \<in> set A. in_grid R C p"
  shows "alive_neighbors (pattern R C A) R C r c = around A r c"
proof -
  have "filter (alive_at (pattern R C A)) (filter (in_grid R C) xs) =
        filter (\<lambda>p. p \<in> set A) xs" for xs
    using assms by (induction xs) (auto simp: alive_at_pattern)
  then show ?thesis
    by (simp add: alive_neighbors_def neighbor_positions_def around_def)
qed

lemma around_far:
  assumes "\<forall>p \<in> set A. fst p \<le> 3 \<and> snd p \<le> 3" "5 \<le> r \<or> 5 \<le> c"
  shows "around A r c = 0"
proof -
  have "p \<notin> set A" if "p \<in> set (surrounding r c)" for p
  proof
    assume "p \<in> set A"
    with assms(1) have "fst p \<le> 3" "snd p \<le> 3" by auto
    moreover from that have "r - 1 \<le> fst p" "c - 1 \<le> snd p"
      by (auto simp: surrounding_def)
    ultimately show False using assms(2) by auto
  qed
  then show ?thesis
    by (simp add: around_def filter_empty_conv)
qed

lemma next_grid_pattern:
  assumes R: "6 \<le> R" and C: "6 \<le> C"
    and box: "\<forall>p \<in> set A. 0 \<le> fst p \<and> fst p \<le> 3 \<and> 0 \<le> snd p \<and> snd p \<le> 3"
    and box': "\<forall>p \<in> set A'. fst p \<le> 4 \<and> snd p \<le> 4"
    and near: "\<forall>r \<in> set [0..4]. \<forall>c \<in> set [0..4].
                 next_state (if (r, c) \<in> set A then 1 else 0) (around A r c) =
                 (if (r, c) \<in> set A' then 1 else 0)"
  shows "next_grid (pattern R C A) R C = pattern R C A'"
proof (rule rect_eqI[of R C])
  from R C show "rect R C (next_grid (pattern R C A) R C)"
    by (intro rect_next_grid) simp_all
  from R C show "rect R C (pattern R C A')"
    by (intro rect_pattern) simp_all
  fix r c assume ig: "in_grid R C (r, c)"
  have inA: "\<forall>p \<in> set A. in_grid R C p"
    using box R C by (auto simp: in_grid_def)
  have "next_state (if (r, c) \<in> set A then 1 else 0) (around A r c) =
        (if (r, c) \<in> set A' then 1 else 0)"
  proof (cases "5 \<le> r \<or> 5 \<le> c")
    case True
    have "around A r c = 0"
      by (rule around_far[OF _ True]) (use box in auto)
    moreover have "(r, c) \<notin> set A" using box True by auto
    moreover have "(r, c) \<notin> set A'" using box' True by auto
    ultimately show ?thesis by (simp add: next_state_def)
  next
    case False
    with ig have "r \<in> set [0..4]" "c \<in> set [0..4]"
      by (auto simp: in_grid_def)
    with near show ?thesis by blast
  qed
  then show "next_grid (pattern R C A) R C ! nat r ! nat c = pattern R C A' ! nat r ! nat c"
    by (simp add: next_grid_nth[OF ig] pattern_nth[OF ig] alive_neighbors_pattern[OF inA])
qed

lemma glider_generation_1:
  "6 \<le> R \<Longrightarrow> 6 \<le> C \<Longrightarrow>
   next_grid (pattern R C [(1, 0), (2, 1), (0, 2), (1, 2), (2, 2)]) R C =
   pattern R C [(0, 1), (2, 1), (1, 2), (2, 2), (1, 3)]"
  by (rule next_grid_pattern) (simp_all add: around_def surrounding_def next_state_def)

lemma glider_generation_2:
  "6 \<le> R \<Longrightarrow> 6 \<le> C \<Longrightarrow>
   next_grid (pattern R C [(0, 1), (2, 1), (1, 2), (2, 2), (1, 3)]) R C =
   pattern R C [(2, 1), (0, 2), (2, 2), (1, 3), (2, 3)]"
  by (rule next_grid_pattern) (simp_all add: around_def surrounding_def next_state_def)

lemma glider_generation_3:
  "6 \<le> R \<Longrightarrow> 6 \<le> C \<Longrightarrow>
   next_grid (pattern R C [(2, 1), (0, 2), (2, 2), (1, 3), (2, 3)]) R C =
   pattern R C [(1, 1), (2, 2), (3, 2), (1, 3), (2, 3)]"
  by (rule next_grid_pattern) (simp_all add: around_def surrounding_def next_state_def)

lemma glider_generation_4:
  "6 \<le> R \<Longrightarrow> 6 \<le> C \<Longrightarrow>
   next_grid (pattern R C [(1, 1), (2, 2), (3, 2), (1, 3), (2, 3)]) R C =
   pattern R C [(2, 1), (3, 2), (1, 3), (2, 3), (3, 3)]"
  by (rule next_grid_pattern) (simp_all add: around_def surrounding_def next_state_def)

lemma make_step_pattern:
  assumes "invariant self" "cells self = pattern (rows self) (cols self) A"
    and "next_grid (pattern (rows self) (cols self) A) (rows self) (cols self) =
         pattern (rows self) (cols self) A'"
  shows "\<exists>self'. make_step self = Inr self' \<and> invariant self' \<and>
           rows self' = rows self \<and> cols self' = cols self \<and>
           cells self' = pattern (rows self) (cols self) A' \<and>
           current_step self' = current_step self + 1"
proof -
  from assms(1) have C: "0 \<le> cols self" and r: "rect (rows self) (cols self) (cells self)"
    by (simp_all add: invariant_def shape_ok_def)
  from r have R: "0 \<le> rows self" by (auto simp: rect_def)
  show ?thesis
    using rect_pattern[OF R C, of A'] C assms(2,3)
    by (simp add: make_step_next_grid[OF assms(1)] invariant_def shape_ok_def cells_def
        binary_pattern)
qed

lemma populate_glider:
  assumes "0 \<le> m" "0 \<le> n"
  shows "\<exists>s0 s1. GameOfLife_init m n = Inr s0 \<and> populate_grid glider s0 = Inr s1 \<and>
           invariant s1 \<and> rows s1 = m \<and> cols s1 = n \<and> current_step s1 = 0 \<and>
           cells s1 = pattern m n glider"
proof -
  let ?z = "replicate (nat m) (replicate (nat n) (0 :: int))"
  let ?s0 = "\<lparr>store = [?z], rows = m, cols = n, life_grid = 0, current_step = 0\<rparr>"
  let ?s1 = "?s0\<lparr>store := (store ?s0)[life_grid ?s0 := populated glider (cells ?s0)],
                 current_step := 0\<rparr>"
  have i: "GameOfLife_init m n = Inr ?s0"
    using assms by (simp add: GameOfLife_init_def np_zeros_def)
  from invariant_init[OF i] have inv0: "invariant ?s0" by simp
  then have ok0: "shape_ok ?s0" by (simp add: invariant_def)
  have p: "populate_grid glider ?s0 = Inr ?s1"
    by (rule populate_grid_populated[OF ok0])
  from invariant_populate_grid[OF inv0, of glider] p have inv1: "invariant ?s1" by simp
  have z: "cells ?s0 = ?z" by (simp add: cells_def)
  have rz: "rect m n ?z" by (rule rect_replicate[OF assms])
  have "populated glider ?z = pattern m n glider"
  proof (rule rect_eqI[OF rect_populated[OF rz] rect_pattern[OF assms]])
    fix r c assume ig: "in_grid m n (r, c)"
    then have "?z ! nat r ! nat c = 0" by (simp add: in_grid_def)
    then show "populated glider ?z ! nat r ! nat c = pattern m n glider ! nat r ! nat c"
      by (simp add: populated_nth[OF rz ig] pattern_nth[OF ig])
  qed
  then have "cells ?s1 = pattern m n glider"
    by (simp add: cells_def)
  with i p inv1 show ?thesis
    by (intro exI[of _ ?s0] exI[of _ ?s1]) simp
qed

text \<open>
  Claim C9. For every grid of at least 6 rows and 6 columns: \<^verbatim>\<open>__init__\<close> and
  \<^verbatim>\<open>populate_grid\<close> with the glider \<^verbatim>\<open>[(1,0),(2,1),(0,2),(1,2),(2,2)]\<close> return, four
  calls of \<^verbatim>\<open>make_step\<close> in sequence return, the generation counter is then 4, and a
  cell \<open>(r, c)\<close> of the grid is alive exactly when \<open>(r - 1, c - 1)\<close> is a cell of the
  glider: the shape moved by \<open>(+1, +1)\<close>, and every other cell is dead.
\<close>

theorem glider_moves:
  assumes "6 \<le> m" "6 \<le> n"
  shows "\<exists>s0 s1 s4. GameOfLife_init m n = Inr s0 \<and> populate_grid glider s0 = Inr s1 \<and>
           step_times 4 s1 = Inr s4 \<and> current_step s4 = 4 \<and>
           rows s4 = m \<and> cols s4 = n \<and> rect m n (cells s4) \<and>
           (\<forall>r c. in_grid m n (r, c) \<longrightarrow>
              cell s4 r c = (if (r - 1, c - 1) \<in> set glider then 1 else 0))"
proof -
  from assms have mn: "0 \<le> m" "0 \<le> n" by simp_all
  from populate_glider[OF mn] obtain s0 s1 where
    s0: "GameOfLife_init m n = Inr s0" and s1: "populate_grid glider s0 = Inr s1"
    and i1: "invariant s1" and d1: "rows s1 = m" "cols s1 = n" and t1: "current_step s1 = 0"
    and c1: "cells s1 = pattern m n [(1, 0), (2, 1), (0, 2), (1, 2), (2, 2)]"
    unfolding glider_def by blast
  from make_step_pattern[OF i1, of _ "[(0, 1), (2, 1), (1, 2), (2, 2), (1, 3)]"]
    c1 glider_generation_1[OF assms] d1 t1
  obtain s2 where s2: "make_step s1 = Inr s2" and i2: "invariant s2"
    and d2: "rows s2 = m" "cols s2 = n" and t2: "current_step s2 = 1"
    and c2: "cells s2 = pattern m n [(0, 1), (2, 1), (1, 2), (2, 2), (1, 3)]"
    by auto
  from make_step_pattern[OF i2, of _ "[(2, 1), (0, 2), (2, 2), (1, 3), (2, 3)]"]
    c2 glider_generation_2[OF assms] d2 t2
  obtain s3 where s3: "make_step s2 = Inr s3" and i3: "invariant s3"
    and d3: "rows s3 = m" "cols s3 = n" and t3: "current_step s3 = 2"
    and c3: "cells s3 = pattern m n [(2, 1), (0, 2), (2, 2), (1, 3), (2, 3)]"
    by auto
  from make_step_pattern[OF i3, of _ "[(1, 1), (2, 2), (3, 2), (1, 3), (2, 3)]"]
    c3 glider_generation_3[OF assms] d3 t3
  obtain s4 where s4: "make_step s3 = Inr s4" and i4: "invariant s4"
    and d4: "rows s4 = m" "cols s4 = n" and t4: "current_step s4 = 3"
    and c4: "cells s4 = pattern m n [(1, 1), (2, 2), (3, 2), (1, 3), (2, 3)]"
    by auto
  from make_step_pattern[OF i4, of _ "[(2, 1), (3, 2), (1, 3), (2, 3), (3, 3)]"]
    c4 glider_generation_4[OF assms] d4 t4
  obtain s5 where s5: "make_step s4 = Inr s5" and i5: "invariant s5"
    and d5: "rows s5 = m" "cols s5 = n" and t5: "current_step s5 = 4"
    and c5: "cells s5 = pattern m n [(2, 1), (3, 2), (1, 3), (2, 3), (3, 3)]"
    by auto
  have "step_times 4 s1 = Inr s5"
    using s2 s3 s4 s5 by (simp add: numeral_eq_Suc)
  moreover have "rect m n (cells s5)"
    unfolding c5 by (rule rect_pattern[OF mn])
  moreover have "cell s5 r c = (if (r - 1, c - 1) \<in> set glider then 1 else 0)"
    if "in_grid m n (r, c)" for r c
    unfolding cell_def c5 pattern_nth[OF that] by (auto simp: glider_def)
  ultimately show ?thesis
    using s0 s1 t5 d5 by blast
qed

text \<open>A grid of 6 rows and 7 columns.\<close>

theorem glider_moves_witness:
  "(6 :: int) \<le> 6 \<and> (6 :: int) \<le> 7 \<and>
   (\<exists>s0 s1 s4. GameOfLife_init 6 7 = Inr s0 \<and> populate_grid glider s0 = Inr s1 \<and>
      step_times 4 s1 = Inr s4 \<and> current_step s4 = 4 \<and>
      cell s4 2 1 = 1 \<and> cell s4 3 2 = 1 \<and> cell s4 1 3 = 1 \<and> cell s4 2 3 = 1 \<and>
      cell s4 3 3 = 1 \<and> cell s4 1 0 = 0 \<and> cell s4 5 6 = 0)"
proof -
  from glider_moves[of 6 7] obtain s0 s1 s4 where
    a: "GameOfLife_init 6 7 = Inr s0" "populate_grid glider s0 = Inr s1"
       "step_times 4 s1 = Inr s4" "current_step s4 = 4"
    and nth: "\<And>r c. in_grid 6 7 (r, c) \<Longrightarrow>
                cell s4 r c = (if (r - 1, c - 1) \<in> set glider then 1 else 0)"
    by auto
  have "cell s4 2 1 = 1" "cell s4 3 2 = 1" "cell s4 1 3 = 1" "cell s4 2 3 = 1"
    "cell s4 3 3 = 1" "cell s4 1 0 = 0" "cell s4 5 6 = 0"
    using nth[of 2 1] nth[of 3 2] nth[of 1 3] nth[of 2 3] nth[of 3 3] nth[of 1 0] nth[of 5 6]
    by (simp_all add: in_grid_def glider_def)
  with a show ?thesis by auto
qed

end
